theory Spec2Isabelle
  imports Main
begin

section \<open>JavaScript string primitives used by the migration utility\<close>

text \<open>
  A JavaScript string is modelled as a \<^typ>\<open>string\<close>, one \<^typ>\<open>char\<close> per code unit
  (code units 0 to 255). \<open>String.prototype.trim\<close> strips the ECMAScript white space
  and line terminator code units; in that range they are TAB, LF, VT, FF, CR, SPACE and
  NBSP.
\<close>

definition is_space :: "char \<Rightarrow> bool" where
  "is_space c \<longleftrightarrow>
     c = CHR 0x09 \<or> c = CHR 0x0A \<or> c = CHR 0x0B \<or> c = CHR 0x0C \<or> c = CHR 0x0D \<or>
     c = CHR 0x20 \<or> c = CHR 0xA0"

definition trim :: "string \<Rightarrow> string" where
  "trim s = rev (dropWhile is_space (rev (dropWhile is_space s)))"

definition startsWith :: "string \<Rightarrow> string \<Rightarrow> bool" where
  "startsWith s p \<longleftrightarrow> take (length p) s = p"

definition endsWith :: "string \<Rightarrow> string \<Rightarrow> bool" where
  "endsWith s p \<longleftrightarrow> length p \<le> length s \<and> drop (length s - length p) s = p"

fun str_includes :: "string \<Rightarrow> string \<Rightarrow> bool" where
  "str_includes [] p = (p = [])"
| "str_includes (c # cs) p = (startsWith (c # cs) p \<or> str_includes cs p)"

text \<open>
  \<open>(trimmed.match(/\$\$/g) || []).length\<close>: the number of matches of the two-character
  marker, scanned left to right without overlap.
\<close>

fun match_count :: "string \<Rightarrow> nat" where
  "match_count (a # b # cs) =
     (if a = CHR ''$'' \<and> b = CHR ''$'' then Suc (match_count cs) else match_count (b # cs))"
| "match_count cs = 0"

text \<open>\<open>sql.split('\n')\<close>: the pieces between line feeds; never an empty array.\<close>

fun split_nl :: "string \<Rightarrow> string list" where
  "split_nl [] = [[]]"
| "split_nl (c # cs) =
     (if c = CHR 0x0A then [] # split_nl cs
      else (case split_nl cs of [] \<Rightarrow> [[c]] | l # ls \<Rightarrow> (c # l) # ls))"

text \<open>The decimal rendering of a number inside a template literal.\<close>

fun show_nat :: "nat \<Rightarrow> string" where
  "show_nat n =
     (if n < 10 then [''0123456789'' ! n]
      else show_nat (n div 10) @ [''0123456789'' ! (n mod 10)])"

declare show_nat.simps [simp del]

section \<open>The statement splitter: \<open>parseSQLStatements\<close>\<close>

text \<open>
  The three local variables of \<open>parseSQLStatements\<close>; \<open>scan_line\<close> is the body of its
  \<open>for (const line of lines)\<close> loop, where \<open>continue\<close> returns the state unchanged.
\<close>

record scan =
  statements :: "string list"
  current :: string
  inDollarQuote :: bool

definition skipped :: "string \<Rightarrow> bool" where
  "skipped trimmed \<longleftrightarrow> trimmed = [] \<or> startsWith trimmed ''--''"

definition toggle :: "string \<Rightarrow> scan \<Rightarrow> scan" where
  "toggle trimmed st =
     (if str_includes trimmed ''$$'' then
        (if match_count trimmed mod 2 = 1
         then st\<lparr>inDollarQuote := \<not> inDollarQuote st\<rparr> else st)
      else st)"

definition complete :: "scan \<Rightarrow> scan" where
  "complete st =
     (let stmt = trim (current st) in
      (if stmt \<noteq> [] \<and> \<not> startsWith stmt ''--''
       then st\<lparr>statements := statements st @ [stmt]\<rparr> else st)\<lparr>current := []\<rparr>)"

definition scan_line :: "scan \<Rightarrow> string \<Rightarrow> scan" where
  "scan_line st line =
     (let trimmed = trim line in
      if \<not> inDollarQuote st \<and> skipped trimmed then st
      else
        let st1 = toggle trimmed st;
            st2 = st1\<lparr>current := current st1 @ line @ [CHR 0x0A]\<rparr>
        in if \<not> inDollarQuote st2 \<and> endsWith trimmed '';'' then complete st2 else st2)"

definition scan_init :: scan where
  "scan_init = \<lparr>statements = [], current = [], inDollarQuote = False\<rparr>"

definition finish :: "scan \<Rightarrow> string list" where
  "finish st =
     (if trim (current st) \<noteq> [] then statements st @ [trim (current st)] else statements st)"

definition parseSQLStatements :: "string \<Rightarrow> string list" where
  "parseSQLStatements sql = finish (foldl scan_line scan_init (split_nl sql))"

section \<open>The migration executor: \<open>runMigration\<close> and \<open>runMigrationFile\<close>\<close>

text \<open>
  What one call \<open>await executeSQL(stmt)\<close> can do: resolve to \<open>{success: true, data}\<close>,
  resolve to \<open>{success: false, error}\<close>, or reject, which happens when \<open>getAccessToken\<close>
  throws before the \<open>try\<close> block is entered. The executor is a parameter of the model; it
  reads and updates a state \<open>'w\<close> of the outside world (the remote database, or the
  bookkeeping of a mock).
\<close>

datatype exec_result = Success string | Failure string | Rejected string

type_synonym 'w executor = "string \<Rightarrow> 'w \<Rightarrow> exec_result \<times> 'w"

text \<open>
  The \<open>options\<close> argument; a field that is \<open>None\<close> is absent and takes the default of the
  destructuring pattern. \<open>silent\<close> only switches \<open>console.log\<close> lines, which are not
  modelled.
\<close>

record options =
  delayMs :: "nat option"
  stopOnError :: "bool option"
  silent :: "bool option"

definition DEFAULT_DELAY_MS :: nat where
  "DEFAULT_DELAY_MS = 300"

definition no_options :: options where
  "no_options = \<lparr>delayMs = None, stopOnError = None, silent = None\<rparr>"

text \<open>\<open>const { delayMs = DEFAULT_DELAY_MS, stopOnError = false, silent = false } = options\<close>\<close>

definition delay_of :: "options \<Rightarrow> nat" where
  "delay_of opts = (case delayMs opts of None \<Rightarrow> DEFAULT_DELAY_MS | Some d \<Rightarrow> d)"

definition stop_of :: "options \<Rightarrow> bool" where
  "stop_of opts = (case stopOnError opts of None \<Rightarrow> False | Some b \<Rightarrow> b)"

record MigrationResult =
  total :: nat
  successful :: nat
  failed :: nat
  errors :: "string list"

text \<open>
  The observable actions of a run, in order: \<open>Executed i stmt res\<close> is the call
  \<open>executeSQL(stmt)\<close> made at loop index \<open>i\<close> (0-based) with its outcome, and
  \<open>Delayed ms\<close> is \<open>await delay(ms)\<close>.
\<close>

datatype event = Executed nat string exec_result | Delayed nat

definition error_entry :: "nat \<Rightarrow> string \<Rightarrow> string" where
  "error_entry i detail = ''Statement '' @ show_nat (i + 1) @ '': '' @ detail"

text \<open>
  The \<open>for\<close> loop of \<open>runMigration\<close>, entered at index \<open>i\<close> with the statements from \<open>i\<close>
  on still to visit; \<open>n\<close> is \<open>statements.length\<close>. The record carries the counters and
  the error list, \<open>tr\<close> the actions so far. A rejected call ends the run with \<open>Inl\<close>.
\<close>

fun pause :: "nat \<Rightarrow> nat \<Rightarrow> nat \<Rightarrow> event list" where
  "pause dly n i = (if i < n - 1 then [Delayed dly] else [])"

fun migration_loop ::
  "'w executor \<Rightarrow> nat \<Rightarrow> bool \<Rightarrow> nat \<Rightarrow> nat \<Rightarrow> string list \<Rightarrow>
   MigrationResult \<Rightarrow> event list \<Rightarrow> 'w \<Rightarrow> (string + MigrationResult) \<times> event list \<times> 'w"
where
  "migration_loop exec dly stop n i [] r tr w = (Inr r, tr, w)"
| "migration_loop exec dly stop n i (s # rest) r tr w =
     (let stmt = trim s in
      if skipped stmt
      then migration_loop exec dly stop n (i + 1) rest r tr w
      else
        (case exec stmt w of
           (Rejected msg, w') \<Rightarrow> (Inl msg, tr @ [Executed i stmt (Rejected msg)], w')
         | (Success d, w') \<Rightarrow>
             migration_loop exec dly stop n (i + 1) rest
               (r\<lparr>successful := successful r + 1\<rparr>)
               (tr @ [Executed i stmt (Success d)] @ pause dly n i) w'
         | (Failure e, w') \<Rightarrow>
             (let r' = r\<lparr>failed := failed r + 1, errors := errors r @ [error_entry i e]\<rparr>;
                  tr' = tr @ [Executed i stmt (Failure e)]
              in if stop then (Inr r', tr', w')
                 else migration_loop exec dly stop n (i + 1) rest r' (tr' @ pause dly n i) w')))"

definition runMigration ::
  "'w executor \<Rightarrow> string list \<Rightarrow> options \<Rightarrow> 'w \<Rightarrow>
   (string + MigrationResult) \<times> event list \<times> 'w"
where
  "runMigration exec stmts opts w =
     migration_loop exec (delay_of opts) (stop_of opts) (length stmts) 0 stmts
       \<lparr>total = length stmts, successful = 0, failed = 0, errors = []\<rparr> [] w"

text \<open>
  What the file system holds at the resolved path: nothing (\<open>fs.existsSync\<close> is false),
  something that \<open>fs.readFileSync\<close> cannot read (it throws the given message), or a
  text file.
\<close>

datatype file_state = Missing | Unreadable string | Readable string

definition runMigrationFile ::
  "(string \<Rightarrow> file_state) \<Rightarrow> 'w executor \<Rightarrow> string \<Rightarrow> options \<Rightarrow> 'w \<Rightarrow>
   (string + MigrationResult) \<times> event list \<times> 'w"
where
  "runMigrationFile fs exec filePath opts w =
     (case fs filePath of
        Missing \<Rightarrow>
          (Inr \<lparr>total = 0, successful = 0, failed = 0, errors = [''File not found'']\<rparr>, [], w)
      | Unreadable msg \<Rightarrow> (Inl msg, [], w)
      | Readable sql \<Rightarrow> runMigration exec (parseSQLStatements sql) opts w)"

section \<open>Reading a run: outcomes, mock executors, sample inputs\<close>

text \<open>
  The failed and the successful executions of a run, and the error-list entries that the
  failed ones call for, read off the actions of the run.
\<close>

fun is_success :: "event \<Rightarrow> bool" where
  "is_success (Executed i s (Success d)) = True"
| "is_success ev = False"

fun is_failure :: "event \<Rightarrow> bool" where
  "is_failure (Executed i s (Failure e)) = True"
| "is_failure ev = False"

fun failure_entries :: "event list \<Rightarrow> string list" where
  "failure_entries [] = []"
| "failure_entries (Executed i s (Failure e) # evs) = error_entry i e # failure_entries evs"
| "failure_entries (ev # evs) = failure_entries evs"


text \<open>
  Mock executors. \<open>always_ok\<close> accepts everything. \<open>failing_on bad\<close> rejects the statement
  text \<open>bad\<close> with a fixed detail and accepts the rest; its state is the list of the
  statements it has been called with.
\<close>

definition always_ok :: "unit executor" where
  "always_ok stmt w = (Success ''[]'', w)"

definition failing_on :: "string \<Rightarrow> (string list) executor" where
  "failing_on bad stmt calls =
     (if stmt = bad then Failure ''syntax error'' else Success ''[]'', calls @ [stmt])"

definition empty_disk :: "string \<Rightarrow> file_state" where
  "empty_disk path = Missing"

definition locked_disk :: "string \<Rightarrow> file_state" where
  "locked_disk path = Unreadable ''EACCES: permission denied''"

definition stop_options :: options where
  "stop_options = \<lparr>delayMs = None, stopOnError = Some True, silent = None\<rparr>"

definition four_tables :: "string list" where
  "four_tables = [''CREATE TABLE a (id INT);'', ''CREATE TABLE b (id INT);'',
                  ''CREATE TABLE c (id INT);'', ''CREATE TABLE d (id INT);'']"

definition commented_batch :: "string list" where
  "commented_batch = [''-- schema setup'', ''CREATE TABLE b (id INT);'',
                      ''CREATE TABLE c (id INT);'', ''CREATE TABLE d (id INT);'']"

definition all_ok_result :: MigrationResult where
  "all_ok_result = \<lparr>total = 4, successful = 4, failed = 0, errors = []\<rparr>"

definition halted_result :: MigrationResult where
  "halted_result =
     \<lparr>total = 4, successful = 1, failed = 1, errors = [''Statement 2: syntax error'']\<rparr>"

definition four_tables_disk :: "string \<Rightarrow> file_state" where
  "four_tables_disk path =
     Readable (''CREATE TABLE a (id INT);'' @ [CHR 0x0A] @ ''CREATE TABLE b (id INT);'' @
               [CHR 0x0A] @ ''CREATE TABLE c (id INT);'' @ [CHR 0x0A] @
               ''CREATE TABLE d (id INT);'' @ [CHR 0x0A])"

definition all_ok_trace :: "event list" where
  "all_ok_trace =
     [Executed 0 ''CREATE TABLE a (id INT);'' (Success ''[]''), Delayed 300,
      Executed 1 ''CREATE TABLE b (id INT);'' (Success ''[]''), Delayed 300,
      Executed 2 ''CREATE TABLE c (id INT);'' (Success ''[]''), Delayed 300,
      Executed 3 ''CREATE TABLE d (id INT);'' (Success ''[]'')]"

definition missing_file_result :: MigrationResult where
  "missing_file_result = \<lparr>total = 0, successful = 0, failed = 0, errors = [''File not found'']\<rparr>"

definition halted_trace :: "event list" where
  "halted_trace =
     [Executed 0 ''CREATE TABLE a (id INT);'' (Success ''[]''), Delayed 300,
      Executed 1 ''CREATE TABLE b (id INT);'' (Failure ''syntax error'')]"

definition one_failure_result :: MigrationResult where
  "one_failure_result =
     \<lparr>total = 4, successful = 3, failed = 1, errors = [''Statement 2: syntax error'']\<rparr>"

definition one_failure_trace :: "event list" where
  "one_failure_trace =
     [Executed 0 ''CREATE TABLE a (id INT);'' (Success ''[]''), Delayed 300,
      Executed 1 ''CREATE TABLE b (id INT);'' (Failure ''syntax error''), Delayed 300,
      Executed 2 ''CREATE TABLE c (id INT);'' (Success ''[]''), Delayed 300,
      Executed 3 ''CREATE TABLE d (id INT);'' (Success ''[]'')]"

definition skipped_first_halted_result :: MigrationResult where
  "skipped_first_halted_result =
     \<lparr>total = 4, successful = 0, failed = 1, errors = [''Statement 2: syntax error'']\<rparr>"

definition skipped_first_result :: MigrationResult where
  "skipped_first_result =
     \<lparr>total = 4, successful = 2, failed = 1, errors = [''Statement 2: syntax error'']\<rparr>"

definition skipped_first_ok_result :: MigrationResult where
  "skipped_first_ok_result = \<lparr>total = 4, successful = 3, failed = 0, errors = []\<rparr>"

text \<open>
  A script given by its lines: \<open>join_nl\<close> puts a line feed between consecutive lines
  (\<open>lines.join('\n')\<close>), so that \<open>split_nl\<close> gives the lines back. \<open>scan_lines\<close> is the
  state of \<open>parseSQLStatements\<close> after its loop has visited the given lines.
\<close>

fun join_nl :: "string list \<Rightarrow> string" where
  "join_nl [] = []"
| "join_nl [l] = l"
| "join_nl (l # l' # ls) = l @ CHR 0x0A # join_nl (l' # ls)"

definition scan_lines :: "string list \<Rightarrow> scan" where
  "scan_lines ls = foldl scan_line scan_init ls"

text \<open>A line as the specification describes it: blank, or a line comment.\<close>

definition blank :: "string \<Rightarrow> bool" where
  "blank l \<longleftrightarrow> list_all is_space l"

definition comment_line :: "string \<Rightarrow> bool" where
  "comment_line l \<longleftrightarrow> startsWith (dropWhile is_space l) ''--''"

definition comments_only :: string where
  "comments_only = ''-- users'' @ [CHR 0x0A] @ ''   '' @ [CHR 0x0A] @ ''  -- domains'' @ [CHR 0x0A]"

text \<open>
  The lines \<open>ls\<close> as the loop appends them to its buffer, each with its line feed
  restored.
\<close>

definition buffered :: "string list \<Rightarrow> string" where
  "buffered ls = concat (map (\<lambda>l. l @ [CHR 0x0A]) ls)"

definition clean_statements :: "string list \<Rightarrow> bool" where
  "clean_statements ss \<longleftrightarrow> list_all (\<lambda>s. s \<noteq> [] \<and> trim s = s) ss"

text \<open>
  What holds of the buffer whenever the loop is between two lines: it is empty and the
  scanner is outside a dollar-quoted body, or it ends in white space and its trimmed
  text is neither empty nor a comment.
\<close>

definition buffer_ok :: "scan \<Rightarrow> bool" where
  "buffer_ok st \<longleftrightarrow>
     (if current st = [] then \<not> inDollarQuote st
      else is_space (last (current st)) \<and> \<not> skipped (trim (current st)))"

text \<open>A sample script: a table, a trigger function with a dollar-quoted body, a query.\<close>

definition function_head :: "string list" where
  "function_head = [''CREATE TABLE a (id INT);'', ''CREATE FUNCTION touch() RETURNS TRIGGER'']"

definition function_body :: "string list" where
  "function_body =
     [''BEGIN'',
      ''  NEW.updated_at := NOW();'',
      '''',
      ''  -- keep the row'',
      ''  RETURN NEW;'',
      ''END;'']"

definition function_text :: string where
  "function_text =
     join_nl (''CREATE FUNCTION touch() RETURNS TRIGGER'' # ''AS $$'' # function_body @ [''$$;''])"

definition function_script :: string where
  "function_script =
     join_nl (function_head @ ''AS $$'' # function_body @ ''$$;'' # [''SELECT 1'', ''''])"

text \<open>
  Two more sample scripts: one whose first line holds a single \<open>$$\<close> inside a string
  literal, before a function with a dollar-quoted body; one whose only statement has no
  semicolon and is followed by a comment.
\<close>

definition stray_marker_script :: string where
  "stray_marker_script =
     join_nl [''INSERT INTO notes VALUES ('costs $$');'',
              ''CREATE FUNCTION one() RETURNS INT AS $$'',
              ''BEGIN'',
              ''  RETURN 1;'',
              ''END;'',
              ''$$;'']"

definition trailing_comment_script :: string where
  "trailing_comment_script = join_nl [''SELECT 1'', ''-- done'']"

section \<open>Trimming\<close>

lemma trim_eqI:
  assumes "s = l @ m @ r" and "\<forall>c \<in> set l. is_space c" and "\<forall>c \<in> set r. is_space c"
    and "m \<noteq> [] \<Longrightarrow> \<not> is_space (hd m) \<and> \<not> is_space (last m)"
  shows "trim s = m"
proof (cases "m = []")
  case True
  with assms(1-3) have "\<forall>c \<in> set s. is_space c" by auto
  with True show ?thesis by (auto simp: trim_def dest: set_dropWhileD)
next
  case False
  with assms(4) have h: "\<not> is_space (hd m)" and t: "\<not> is_space (last m)" by simp_all
  from False h have "dropWhile is_space (m @ r) = m @ r"
    by (cases m) simp_all
  with assms(1,2) have "dropWhile is_space s = m @ r" by simp
  moreover from assms(3) have "dropWhile is_space (rev r @ rev m) = dropWhile is_space (rev m)"
    by (intro dropWhile_append2) simp
  moreover from False t have "dropWhile is_space (rev m) = rev m"
    by (cases m rule: rev_cases) simp_all
  ultimately show ?thesis by (simp add: trim_def)
qed

lemma trim_decomp:
  "\<exists>l r. s = l @ trim s @ r \<and> (\<forall>c \<in> set l. is_space c) \<and> (\<forall>c \<in> set r. is_space c)"
proof -
  let ?t = "dropWhile is_space s"
  let ?u = "dropWhile is_space (rev ?t)"
  have "s = takeWhile is_space s @ ?t" by simp
  moreover have "rev ?t = takeWhile is_space (rev ?t) @ ?u" by simp
  then have "?t = rev ?u @ rev (takeWhile is_space (rev ?t))"
    by (metis rev_append rev_rev_ident)
  ultimately have "s = takeWhile is_space s @ trim s @ rev (takeWhile is_space (rev ?t))"
    by (simp add: trim_def)
  moreover have "\<forall>c \<in> set (takeWhile is_space s). is_space c"
    by (auto dest: set_takeWhileD)
  moreover have "\<forall>c \<in> set (rev (takeWhile is_space (rev ?t))). is_space c"
    by (auto dest: set_takeWhileD)
  ultimately show ?thesis by blast
qed

lemma trim_ends:
  assumes "trim s \<noteq> []"
  shows "\<not> is_space (hd (trim s))" and "\<not> is_space (last (trim s))"
proof -
  let ?t = "dropWhile is_space s"
  let ?u = "dropWhile is_space (rev ?t)"
  from assms have u: "?u \<noteq> []" by (simp add: trim_def)
  then have "\<not> is_space (hd ?u)" by (rule hd_dropWhile)
  with u show "\<not> is_space (last (trim s))" by (simp add: trim_def last_rev)
  have t: "?t \<noteq> []"
  proof
    assume "?t = []"
    with u show False by simp
  qed
  then have nh: "\<not> is_space (hd ?t)" by (rule hd_dropWhile)
  from t nh have "dropWhile is_space (rev ?t) = (dropWhile is_space (rev (tl ?t))) @ [hd ?t] \<or>
                  dropWhile is_space (rev ?t) = rev ?t"
    by (cases ?t) (simp_all add: dropWhile_append)
  then have "last ?u = hd ?t"
    using t by (auto simp: last_rev)
  with u show "\<not> is_space (hd (trim s))" using nh by (simp add: trim_def hd_rev)
qed

lemma trim_idem [simp]: "trim (trim s) = trim s"
  by (rule trim_eqI [where l = "[]" and r = "[]"]) (simp_all add: trim_ends)

lemma trim_Nil [simp]: "trim [] = []"
  by (simp add: trim_def)

lemma trim_blank: "(\<forall>c \<in> set s. is_space c) \<Longrightarrow> trim s = []"
  by (auto simp: trim_def dest: set_dropWhileD)

section \<open>The splitter\<close>

lemma scan_line_skip:
  "\<not> inDollarQuote st \<Longrightarrow> skipped (trim l) \<Longrightarrow> scan_line st l = st"
  by (simp add: scan_line_def)

lemma scan_skipped_lines:
  "\<not> inDollarQuote st \<Longrightarrow> \<forall>l \<in> set ls. skipped (trim l) \<Longrightarrow> foldl scan_line st ls = st"
  by (induction ls) (simp_all add: scan_line_skip)

lemma comment_line_skipped:
  assumes "comment_line l"
  shows "skipped (trim l)"
proof -
  from assms obtain rest where d: "dropWhile is_space l = CHR ''-'' # CHR ''-'' # rest"
    by (cases "dropWhile is_space l" rule: list.exhaust; cases "tl (dropWhile is_space l)")
       (auto simp: comment_line_def startsWith_def)
  have "dropWhile is_space (rev rest @ ''--'') = dropWhile is_space (rev rest) @ ''--'' \<or>
        dropWhile is_space (rev rest @ ''--'') = ''--''"
    by (simp add: dropWhile_append is_space_def)
  with d have "trim l = CHR ''-'' # CHR ''-'' # rev (dropWhile is_space (rev rest)) \<or>
               trim l = ''--''"
    by (auto simp: trim_def)
  then show ?thesis by (auto simp: skipped_def startsWith_def)
qed

lemma blank_skipped: "blank l \<Longrightarrow> skipped (trim l)"
  by (simp add: blank_def skipped_def trim_blank list_all_iff)

lemma scan_line_clean:
  "clean_statements (statements st) \<Longrightarrow> clean_statements (statements (scan_line st l))"
  by (simp add: scan_line_def complete_def toggle_def clean_statements_def Let_def)

lemma scan_lines_clean:
  "clean_statements (statements st) \<Longrightarrow> clean_statements (statements (foldl scan_line st ls))"
  by (induction ls arbitrary: st) (simp_all add: scan_line_clean)

lemma trim_append_spaces:
  assumes "\<forall>c \<in> set ws. is_space c"
  shows "trim (s @ ws) = trim s"
proof -
  obtain l r where s: "s = l @ trim s @ r" and l: "\<forall>c \<in> set l. is_space c"
    and r: "\<forall>c \<in> set r. is_space c"
    using trim_decomp by blast
  show ?thesis
  proof (rule trim_eqI [where l = l and r = "r @ ws"])
    from s show "s @ ws = l @ trim s @ r @ ws" by simp
    from l show "\<forall>c \<in> set l. is_space c" .
    from r assms show "\<forall>c \<in> set (r @ ws). is_space c" by auto
    show "\<not> is_space (hd (trim s)) \<and> \<not> is_space (last (trim s))" if "trim s \<noteq> []"
      using that by (simp add: trim_ends)
  qed
qed

lemma trim_grow:
  assumes "trim s \<noteq> []" and "s \<noteq> []" and "is_space (last s)"
  shows "\<exists>t. trim (s @ x) = trim s @ t \<and> (t = [] \<or> is_space (hd t))"
proof -
  obtain l r where s: "s = l @ trim s @ r" and l: "\<forall>c \<in> set l. is_space c"
    and r: "\<forall>c \<in> set r. is_space c"
    using trim_decomp by blast
  from assms(1) have ends: "\<not> is_space (hd (trim s))" "\<not> is_space (last (trim s))"
    by (simp_all add: trim_ends)
  have rne: "r \<noteq> []"
  proof
    assume "r = []"
    with s assms(1) have "last s = last (trim s)" by (metis append_Nil2 last_appendR)
    with assms(3) ends(2) show False by simp
  qed
  obtain l' r' where rx: "r @ x = l' @ trim (r @ x) @ r'"
    and r': "\<forall>c \<in> set r'. is_space c"
    using trim_decomp by blast
  let ?t = "rev (dropWhile is_space (rev (r @ x)))"
  have tpre: "r @ x = ?t @ rev (takeWhile is_space (rev (r @ x)))"
    by (metis rev_append rev_rev_ident takeWhile_dropWhile_id)
  have tspace: "\<forall>c \<in> set (rev (takeWhile is_space (rev (r @ x)))). is_space c"
    by (auto dest: set_takeWhileD)
  have thd: "?t = [] \<or> is_space (hd ?t)"
  proof (cases "?t = []")
    case True
    then show ?thesis by simp
  next
    case False
    with tpre have "hd ?t = hd (r @ x)" by (metis hd_append2)
    with rne r show ?thesis by (cases r) simp_all
  qed
  have tlast: "?t \<noteq> [] \<Longrightarrow> \<not> is_space (last ?t)"
  proof -
    assume ne: "?t \<noteq> []"
    then have "dropWhile is_space (rev (r @ x)) \<noteq> []" by simp
    then have "\<not> is_space (hd (dropWhile is_space (rev (r @ x))))" by (rule hd_dropWhile)
    with ne show ?thesis by (simp add: last_rev)
  qed
  have "trim (s @ x) = trim s @ ?t"
  proof (rule trim_eqI [where l = l and r = "rev (takeWhile is_space (rev (r @ x)))"])
    from s tpre show "s @ x = l @ (trim s @ ?t) @ rev (takeWhile is_space (rev (r @ x)))"
      by (metis append.assoc)
    from l show "\<forall>c \<in> set l. is_space c" .
    from tspace show "\<forall>c \<in> set (rev (takeWhile is_space (rev (r @ x)))). is_space c" .
    show "\<not> is_space (hd (trim s @ ?t)) \<and> \<not> is_space (last (trim s @ ?t))"
      using assms(1) ends tlast by (cases "?t = []") simp_all
  qed
  with thd show ?thesis by blast
qed

lemma not_skipped_grow:
  assumes "\<not> skipped (trim s)" and "s \<noteq> []" and "is_space (last s)"
  shows "\<not> skipped (trim (s @ x))"
proof -
  from assms(1) have ne: "trim s \<noteq> []" and nc: "take (Suc (Suc 0)) (trim s) \<noteq> ''--''"
    by (simp_all add: skipped_def startsWith_def)
  from trim_grow [OF ne assms(2,3)] obtain t where
    t: "trim (s @ x) = trim s @ t" and sp: "t = [] \<or> is_space (hd t)"
    by blast
  have "take (Suc (Suc 0)) (trim s @ t) \<noteq> ''--''"
  proof (cases "trim s")
    case Nil
    with ne show ?thesis by simp
  next
    case (Cons a m)
    show ?thesis
    proof (cases m)
      case Nil
      with Cons sp show ?thesis
        by (cases t) (auto simp: is_space_def)
    next
      case (Cons b m')
      with \<open>trim s = a # m\<close> nc show ?thesis by simp
    qed
  qed
  with t ne show ?thesis by (simp add: skipped_def startsWith_def)
qed

lemma trim_line_feed [simp]: "trim (s @ [CHR 0x0A]) = trim s"
  by (rule trim_append_spaces) (simp add: is_space_def)

lemma split_nl_nonempty [simp]: "split_nl s \<noteq> []"
  by (induction s) (auto split: list.splits)

lemma split_nl_line:
  "CHR 0x0A \<notin> set l \<Longrightarrow> split_nl (l @ CHR 0x0A # s) = l # split_nl s"
  by (induction l) auto

lemma split_nl_single: "CHR 0x0A \<notin> set l \<Longrightarrow> split_nl l = [l]"
  by (induction l) auto

lemma split_nl_join_nl:
  "ls \<noteq> [] \<Longrightarrow> \<forall>l \<in> set ls. CHR 0x0A \<notin> set l \<Longrightarrow> split_nl (join_nl ls) = ls"
  by (induction ls rule: join_nl.induct) (simp_all add: split_nl_single split_nl_line)

lemma buffered_simps [simp]:
  "buffered [] = []" "buffered (l # ls) = l @ CHR 0x0A # buffered ls"
  "buffered (xs @ ys) = buffered xs @ buffered ys"
  by (simp_all add: buffered_def)

lemma buffered_join_nl: "ls \<noteq> [] \<Longrightarrow> buffered ls = join_nl ls @ [CHR 0x0A]"
  by (induction ls rule: join_nl.induct) simp_all

lemma match_count_includes: "match_count t \<noteq> 0 \<Longrightarrow> str_includes t ''$$''"
  by (induction t rule: match_count.induct) (auto simp: startsWith_def)

lemma toggle_eq:
  "toggle t st = st\<lparr>inDollarQuote := (inDollarQuote st \<noteq> odd (match_count t))\<rparr>"
proof (cases "odd (match_count t)")
  case True
  then have "match_count t \<noteq> 0" by presburger
  with True show ?thesis
    by (simp add: toggle_def match_count_includes odd_iff_mod_2_eq_one)
next
  case False
  then show ?thesis by (simp add: toggle_def odd_iff_mod_2_eq_one)
qed

lemma scan_line_keep:
  assumes "inDollarQuote st \<or> \<not> skipped (trim l)"
  shows "scan_line st l =
           (let st2 = st\<lparr>inDollarQuote := (inDollarQuote st \<noteq> odd (match_count (trim l))),
                          current := current st @ l @ [CHR 0x0A]\<rparr>
            in if \<not> inDollarQuote st2 \<and> endsWith (trim l) '';'' then complete st2 else st2)"
  using assms by (auto simp: scan_line_def toggle_eq Let_def)

lemma buffer_ok_scan_line:
  assumes "buffer_ok st"
  shows "buffer_ok (scan_line st l)"
proof (cases "inDollarQuote st \<or> \<not> skipped (trim l)")
  case False
  with assms show ?thesis by (simp add: scan_line_skip)
next
  case True
  let ?cur = "current st @ l @ [CHR 0x0A]"
  have keep: "\<not> skipped (trim ?cur)"
  proof (cases "current st = []")
    case empty: True
    with assms True have "\<not> skipped (trim l)" by (simp add: buffer_ok_def)
    with empty show ?thesis by (metis append_Nil trim_line_feed)
  next
    case False
    with assms have "is_space (last (current st))" "\<not> skipped (trim (current st))"
      by (simp_all add: buffer_ok_def)
    with False show ?thesis by (intro not_skipped_grow)
  qed
  have sp: "is_space (last ?cur)" by (simp add: is_space_def)
  show ?thesis
    unfolding scan_line_keep [OF True]
    using keep sp by (simp add: Let_def buffer_ok_def complete_def)
qed

lemma buffer_ok_foldl: "buffer_ok st \<Longrightarrow> buffer_ok (foldl scan_line st ls)"
  by (induction ls arbitrary: st) (simp_all add: buffer_ok_scan_line)

lemma buffer_ok_scan_lines: "buffer_ok (scan_lines ls)"
  unfolding scan_lines_def by (rule buffer_ok_foldl) (simp add: buffer_ok_def scan_init_def)

lemma complete_emits:
  assumes "\<not> skipped (trim (current st))"
  shows "complete st = st\<lparr>statements := statements st @ [trim (current st)], current := []\<rparr>"
  using assms by (simp add: complete_def skipped_def Let_def)

lemma statements_scan_line: "\<exists>zs. statements (scan_line st l) = statements st @ zs"
  by (simp add: scan_line_def toggle_eq complete_def Let_def)

lemma statements_foldl: "\<exists>zs. statements (foldl scan_line st ls) = statements st @ zs"
proof (induction ls arbitrary: st)
  case Nil
  show ?case by simp
next
  case (Cons l ls)
  from statements_scan_line obtain ys where "statements (scan_line st l) = statements st @ ys"
    by blast
  moreover from Cons obtain zs where
    "statements (foldl scan_line (scan_line st l) ls) = statements (scan_line st l) @ zs"
    by blast
  ultimately show ?case by simp
qed

lemma finish_extends: "\<exists>zs. finish st = statements st @ zs"
  by (simp add: finish_def)

lemma scan_lines_append: "scan_lines (xs @ ys) = foldl scan_line (scan_lines xs) ys"
  by (simp add: scan_lines_def)

lemma kept_buffer_not_skipped:
  assumes "buffer_ok st" and "inDollarQuote st \<or> \<not> skipped (trim l)"
  shows "\<not> skipped (trim (current st @ l @ CHR 0x0A # x))"
proof -
  let ?cur = "current st @ l @ [CHR 0x0A]"
  have "\<not> skipped (trim ?cur)"
  proof (cases "current st = []")
    case True
    with assms have "\<not> skipped (trim l)" by (simp add: buffer_ok_def)
    with True show ?thesis by (metis append_Nil trim_line_feed)
  next
    case False
    with assms(1) have "is_space (last (current st))" "\<not> skipped (trim (current st))"
      by (simp_all add: buffer_ok_def)
    with False show ?thesis by (intro not_skipped_grow)
  qed
  moreover have "?cur \<noteq> []" "is_space (last ?cur)" by (simp_all add: is_space_def)
  ultimately have "\<not> skipped (trim (?cur @ x))" by (rule not_skipped_grow)
  then show ?thesis by simp
qed

lemma scan_body_lines:
  assumes "inDollarQuote st" and "\<forall>b \<in> set body. even (match_count (trim b))"
  shows "foldl scan_line st body = st\<lparr>current := current st @ buffered body\<rparr>"
  using assms
proof (induction body arbitrary: st)
  case Nil
  show ?case by simp
next
  case (Cons b body)
  from Cons.prems have step: "scan_line st b = st\<lparr>current := current st @ b @ [CHR 0x0A]\<rparr>"
    by (simp add: scan_line_keep Let_def)
  have "foldl scan_line (st\<lparr>current := current st @ b @ [CHR 0x0A]\<rparr>) body =
        st\<lparr>current := current st @ b @ [CHR 0x0A]\<rparr>
          \<lparr>current := current (st\<lparr>current := current st @ b @ [CHR 0x0A]\<rparr>) @ buffered body\<rparr>"
    using Cons.prems by (intro Cons.IH) simp_all
  with step show ?case by simp
qed

lemma scan_blank_lines:
  assumes "\<forall>p \<in> set post. blank p"
  shows "\<exists>ws. foldl scan_line st post = st\<lparr>current := current st @ ws\<rparr> \<and>
              (\<forall>c \<in> set ws. is_space c)"
  using assms
proof (induction post arbitrary: st)
  case Nil
  have "foldl scan_line st [] = st\<lparr>current := current st @ []\<rparr>" by simp
  then show ?case by (metis empty_iff list.set(1))
next
  case (Cons p post)
  from Cons.prems have bl: "\<forall>c \<in> set p. is_space c" and tr: "trim p = []"
    by (simp_all add: blank_def list_all_iff trim_blank)
  have "\<exists>ws. scan_line st p = st\<lparr>current := current st @ ws\<rparr> \<and> (\<forall>c \<in> set ws. is_space c)"
  proof (cases "inDollarQuote st")
    case True
    then have "scan_line st p = st\<lparr>current := current st @ (p @ [CHR 0x0A])\<rparr>"
      by (simp add: scan_line_keep tr Let_def endsWith_def)
    moreover from bl have "\<forall>c \<in> set (p @ [CHR 0x0A]). is_space c" by (simp add: is_space_def)
    ultimately show ?thesis by blast
  next
    case False
    then have "scan_line st p = st\<lparr>current := current st @ []\<rparr>"
      by (simp add: scan_line_skip tr skipped_def)
    then show ?thesis by (metis empty_iff list.set(1))
  qed
  then obtain ws where 1: "scan_line st p = st\<lparr>current := current st @ ws\<rparr>"
    and ws: "\<forall>c \<in> set ws. is_space c"
    by blast
  from Cons.IH [of "scan_line st p"] Cons.prems obtain ws' where
    2: "foldl scan_line (scan_line st p) post =
        (scan_line st p)\<lparr>current := current (scan_line st p) @ ws'\<rparr>"
    and ws': "\<forall>c \<in> set ws'. is_space c"
    by auto
  from 1 2 have "foldl scan_line st (p # post) = st\<lparr>current := current st @ (ws @ ws')\<rparr>"
    by simp
  moreover from ws ws' have "\<forall>c \<in> set (ws @ ws'). is_space c" by auto
  ultimately show ?case by blast
qed

lemma scan_line_executable:
  "list_all (\<lambda>s. \<not> skipped s) (statements st) \<Longrightarrow>
   list_all (\<lambda>s. \<not> skipped s) (statements (scan_line st l))"
  by (simp add: scan_line_def complete_def toggle_eq skipped_def Let_def)

lemma scan_lines_executable:
  "list_all (\<lambda>s. \<not> skipped s) (statements st) \<Longrightarrow>
   list_all (\<lambda>s. \<not> skipped s) (statements (foldl scan_line st ls))"
  by (induction ls arbitrary: st) (simp_all add: scan_line_executable)

lemma parsed_statements_executable:
  assumes "s \<in> set (parseSQLStatements sql)"
  shows "\<not> skipped (trim s)"
proof -
  let ?st = "foldl scan_line scan_init (split_nl sql)"
  have "list_all (\<lambda>s. \<not> skipped s) (statements ?st)"
    by (rule scan_lines_executable) (simp add: scan_init_def)
  moreover have "buffer_ok ?st"
    by (rule buffer_ok_foldl) (simp add: buffer_ok_def scan_init_def)
  then have "trim (current ?st) \<noteq> [] \<Longrightarrow> \<not> skipped (trim (current ?st))"
    by (auto simp: buffer_ok_def split: if_splits)
  ultimately have "list_all (\<lambda>s. \<not> skipped s) (parseSQLStatements sql)"
    by (simp add: parseSQLStatements_def finish_def)
  with assms have "\<not> skipped s" by (simp add: list_all_iff)
  moreover have "clean_statements (statements ?st)"
    by (rule scan_lines_clean) (simp add: scan_init_def clean_statements_def)
  then have "clean_statements (parseSQLStatements sql)"
    by (simp add: parseSQLStatements_def finish_def clean_statements_def)
  with assms have "trim s = s" by (simp add: clean_statements_def list_all_iff)
  ultimately show ?thesis by simp
qed

lemma buffer_continues:
  assumes "buffer_ok st" and "current st \<noteq> []"
  shows "\<exists>more rest. finish (foldl scan_line st ls) =
           statements st @ [trim (current st @ more)] @ rest"
  using assms
proof (induction ls arbitrary: st)
  case Nil
  then have "trim (current st) \<noteq> []" by (simp add: buffer_ok_def skipped_def)
  then have "finish (foldl scan_line st []) = statements st @ [trim (current st @ [])] @ []"
    by (simp add: finish_def)
  then show ?case by blast
next
  case (Cons l ls)
  show ?case
  proof (cases "inDollarQuote st \<or> \<not> skipped (trim l)")
    case False
    then have "scan_line st l = st" by (simp add: scan_line_skip)
    with Cons.IH [OF Cons.prems] show ?thesis by simp
  next
    case True
    let ?st2 = "st\<lparr>inDollarQuote := (inDollarQuote st \<noteq> odd (match_count (trim l))),
                    current := current st @ l @ [CHR 0x0A]\<rparr>"
    show ?thesis
    proof (cases "\<not> inDollarQuote ?st2 \<and> endsWith (trim l) '';''")
      case ended: True
      from kept_buffer_not_skipped [OF Cons.prems(1) True, of "[]"]
      have "\<not> skipped (trim (current ?st2))" by simp
      then have "complete ?st2 =
                  ?st2\<lparr>statements := statements st @ [trim (current st @ l @ [CHR 0x0A])],
                        current := []\<rparr>"
        by (simp add: complete_emits)
      moreover from ended True have "scan_line st l = complete ?st2"
        by (simp add: scan_line_keep Let_def)
      ultimately have step: "scan_line st l =
                  ?st2\<lparr>statements := statements st @ [trim (current st @ l @ [CHR 0x0A])],
                        current := []\<rparr>"
        by simp
      obtain zs where "statements (foldl scan_line (scan_line st l) ls) =
                       statements (scan_line st l) @ zs"
        using statements_foldl by blast
      moreover obtain zs' where "finish (foldl scan_line (scan_line st l) ls) =
                       statements (foldl scan_line (scan_line st l) ls) @ zs'"
        using finish_extends by blast
      ultimately have "finish (foldl scan_line st (l # ls)) =
          statements st @ [trim (current st @ l @ [CHR 0x0A])] @ (zs @ zs')"
        using step by simp
      then show ?thesis by blast
    next
      case False
      with True have step: "scan_line st l = ?st2"
        by (auto simp: scan_line_keep Let_def)
      have "buffer_ok (scan_line st l)"
        using Cons.prems(1) by (rule buffer_ok_scan_line)
      with step have "buffer_ok ?st2" by simp
      moreover have "current ?st2 \<noteq> []" by simp
      ultimately obtain more rest where
        "finish (foldl scan_line ?st2 ls) = statements ?st2 @ [trim (current ?st2 @ more)] @ rest"
        using Cons.IH by blast
      with step have "finish (foldl scan_line st (l # ls)) =
          statements st @ [trim (current st @ (l @ CHR 0x0A # more))] @ rest"
        by simp
      then show ?thesis by blast
    qed
  qed
qed

lemma skipped_trim_cases:
  assumes "skipped (trim p)"
  shows "blank p \<or> comment_line p"
proof -
  obtain l r where p: "p = l @ trim p @ r" and l: "\<forall>c \<in> set l. is_space c"
    and r: "\<forall>c \<in> set r. is_space c"
    using trim_decomp by blast
  show ?thesis
  proof (cases "trim p = []")
    case True
    with p l r have "\<forall>c \<in> set p. is_space c" by (metis append_Nil set_append Un_iff)
    then show ?thesis by (simp add: blank_def list_all_iff)
  next
    case False
    with assms obtain t where t: "trim p = CHR ''-'' # CHR ''-'' # t"
      by (cases "trim p" rule: list.exhaust; cases "tl (trim p)")
         (auto simp: skipped_def startsWith_def)
    from l have "dropWhile is_space (l @ trim p @ r) = dropWhile is_space (trim p @ r)"
      by (intro dropWhile_append2) simp
    with p t have "dropWhile is_space p = CHR ''-'' # CHR ''-'' # t @ r"
      by (simp add: is_space_def)
    then show ?thesis by (simp add: comment_line_def startsWith_def)
  qed
qed

lemma scan_last_kept:
  assumes "inDollarQuote st \<or> \<not> skipped (trim l)"
    and "(inDollarQuote st \<noteq> odd (match_count (trim l))) \<or> \<not> endsWith (trim l) '';''"
  shows "scan_line st l =
         st\<lparr>inDollarQuote := (inDollarQuote st \<noteq> odd (match_count (trim l))),
            current := current st @ l @ [CHR 0x0A]\<rparr>"
  using assms by (auto simp: scan_line_keep Let_def)

lemma scan_trailing_lines:
  assumes "\<forall>p \<in> set post. blank p \<or> (comment_line p \<and> \<not> inDollarQuote st)"
  shows "\<exists>ws. foldl scan_line st post = st\<lparr>current := current st @ ws\<rparr> \<and>
              (\<forall>c \<in> set ws. is_space c)"
proof (cases "inDollarQuote st")
  case True
  with assms have "\<forall>p \<in> set post. blank p" by blast
  then show ?thesis by (rule scan_blank_lines)
next
  case False
  from assms have "\<forall>p \<in> set post. skipped (trim p)"
    by (auto intro: blank_skipped comment_line_skipped)
  with False have "foldl scan_line st post = st" by (rule scan_skipped_lines)
  then have "foldl scan_line st post = st\<lparr>current := current st @ []\<rparr>" by simp
  then show ?thesis by (metis empty_iff list.set(1))
qed

lemma even_lines_stay_outside:
  assumes "\<not> inDollarQuote st" and "\<forall>x \<in> set ls. even (match_count (trim x))"
  shows "\<not> inDollarQuote (foldl scan_line st ls)"
  using assms
proof (induction ls arbitrary: st)
  case Nil
  then show ?case by simp
next
  case (Cons x ls)
  from Cons.prems have "\<not> inDollarQuote (scan_line st x)"
    by (simp add: scan_line_def toggle_eq complete_def Let_def)
  with Cons.IH Cons.prems(2) show ?case by simp
qed

lemma remaining_buffer_has_last_line:
  assumes "current (scan_lines ls) \<noteq> []"
  shows "\<exists>pre l post. ls = pre @ l # post \<and>
           (inDollarQuote (scan_lines pre) \<or> \<not> skipped (trim l)) \<and>
           ((inDollarQuote (scan_lines pre) \<noteq> odd (match_count (trim l))) \<or>
            \<not> endsWith (trim l) '';'') \<and>
           (\<forall>p \<in> set post.
              blank p \<or>
              (comment_line p \<and> inDollarQuote (scan_lines pre) = odd (match_count (trim l))))"
  using assms
proof (induction ls rule: rev_induct)
  case Nil
  then show ?case by (simp add: scan_lines_def scan_init_def)
next
  case (snoc x xs)
  let ?s = "scan_lines xs"
  have step: "scan_lines (xs @ [x]) = scan_line ?s x" by (simp add: scan_lines_def)
  show ?case
  proof (cases "inDollarQuote ?s \<or> \<not> skipped (trim x)")
    case True
    have "(inDollarQuote ?s \<noteq> odd (match_count (trim x))) \<or> \<not> endsWith (trim x) '';''"
    proof (rule ccontr)
      assume "\<not> ?thesis"
      with True have "current (scan_line ?s x) = []"
        by (simp add: scan_line_keep Let_def complete_def)
      with snoc.prems step show False by simp
    qed
    with True have "xs @ [x] = xs @ x # [] \<and>
           (inDollarQuote (scan_lines xs) \<or> \<not> skipped (trim x)) \<and>
           ((inDollarQuote (scan_lines xs) \<noteq> odd (match_count (trim x))) \<or>
            \<not> endsWith (trim x) '';'') \<and>
           (\<forall>p \<in> set [].
              blank p \<or>
              (comment_line p \<and> inDollarQuote (scan_lines xs) = odd (match_count (trim x))))"
      by simp
    then show ?thesis by blast
  next
    case False
    then have off: "\<not> inDollarQuote ?s" and sk: "skipped (trim x)" by simp_all
    then have "scan_line ?s x = ?s" by (rule scan_line_skip)
    with snoc.prems step have "current ?s \<noteq> []" by simp
    from snoc.IH [OF this] obtain pre l post where
      xs: "xs = pre @ l # post"
      and kept: "inDollarQuote (scan_lines pre) \<or> \<not> skipped (trim l)"
      and nc: "(inDollarQuote (scan_lines pre) \<noteq> odd (match_count (trim l))) \<or>
               \<not> endsWith (trim l) '';''"
      and post: "\<forall>p \<in> set post.
              blank p \<or>
              (comment_line p \<and> inDollarQuote (scan_lines pre) = odd (match_count (trim l)))"
      by blast
    let ?st = "scan_lines pre"
    let ?st1 = "?st\<lparr>inDollarQuote := (inDollarQuote ?st \<noteq> odd (match_count (trim l))),
                     current := current ?st @ l @ [CHR 0x0A]\<rparr>"
    from kept nc have "scan_line ?st l = ?st1" by (rule scan_last_kept)
    with xs have "?s = foldl scan_line ?st1 post" by (simp add: scan_lines_append)
    moreover from post
    have "\<forall>p \<in> set post. blank p \<or> (comment_line p \<and> \<not> inDollarQuote ?st1)"
      by auto
    from scan_trailing_lines [OF this] obtain ws where
      "foldl scan_line ?st1 post = ?st1\<lparr>current := current ?st1 @ ws\<rparr>"
      by blast
    ultimately have "inDollarQuote ?s = inDollarQuote ?st1" by simp
    with off have flag: "inDollarQuote ?st = odd (match_count (trim l))" by simp
    from sk have "blank x \<or> comment_line x" by (rule skipped_trim_cases)
    with flag post have "\<forall>p \<in> set (post @ [x]).
              blank p \<or>
              (comment_line p \<and> inDollarQuote (scan_lines pre) = odd (match_count (trim l)))"
      by auto
    moreover from xs have "xs @ [x] = pre @ l # (post @ [x])" by simp
    ultimately show ?thesis using kept nc by blast
  qed
qed

section \<open>The executor loop, step by step\<close>

lemma failure_entries_append [simp]:
  "failure_entries (xs @ ys) = failure_entries xs @ failure_entries ys"
  by (induction xs rule: failure_entries.induct) simp_all

lemma pause_neutral [simp]:
  "filter is_success (pause dly n i) = []" "filter is_failure (pause dly n i) = []"
  "failure_entries (pause dly n i) = []"
  by simp_all


declare pause.simps [simp del]

lemma migration_loop_Cons_cases [consumes 1, case_names skip ok halt cont]:
  assumes "migration_loop exec dly stop n i (s # rest) r tr w = (Inr r', tr', w')"
  obtains
    "skipped (trim s)"
      "migration_loop exec dly stop n (i + 1) rest r tr w = (Inr r', tr', w')"
  | d w1 where "\<not> skipped (trim s)" "exec (trim s) w = (Success d, w1)"
      "migration_loop exec dly stop n (i + 1) rest (r\<lparr>successful := successful r + 1\<rparr>)
         (tr @ [Executed i (trim s) (Success d)] @ pause dly n i) w1 = (Inr r', tr', w')"
  | e w1 where "\<not> skipped (trim s)" "exec (trim s) w = (Failure e, w1)" "stop"
      "r' = r\<lparr>failed := failed r + 1, errors := errors r @ [error_entry i e]\<rparr>"
      "tr' = tr @ [Executed i (trim s) (Failure e)]" "w' = w1"
  | e w1 where "\<not> skipped (trim s)" "exec (trim s) w = (Failure e, w1)" "\<not> stop"
      "migration_loop exec dly stop n (i + 1) rest
         (r\<lparr>failed := failed r + 1, errors := errors r @ [error_entry i e]\<rparr>)
         (tr @ [Executed i (trim s) (Failure e)] @ pause dly n i) w1 = (Inr r', tr', w')"
proof (cases "skipped (trim s)")
  case True
  with assms have "migration_loop exec dly stop n (i + 1) rest r tr w = (Inr r', tr', w')"
    by (simp add: Let_def)
  with True show ?thesis by (rule that(1))
next
  case False
  obtain res w1 where ex: "exec (trim s) w = (res, w1)" by (cases "exec (trim s) w")
  show ?thesis
  proof (cases res)
    case (Success d)
    from ex Success have ex': "exec (trim s) w = (Success d, w1)" by simp
    from assms False ex'
    have "migration_loop exec dly stop n (i + 1) rest (r\<lparr>successful := successful r + 1\<rparr>)
         (tr @ [Executed i (trim s) (Success d)] @ pause dly n i) w1 = (Inr r', tr', w')"
      by (simp add: Let_def)
    with False ex' show ?thesis by (rule that(2))
  next
    case (Failure e)
    from ex Failure have ex': "exec (trim s) w = (Failure e, w1)" by simp
    show ?thesis
    proof (cases stop)
      case True
      from assms False ex' True
      have "(Inr (r\<lparr>failed := failed r + 1, errors := errors r @ [error_entry i e]\<rparr>),
             tr @ [Executed i (trim s) (Failure e)], w1) = (Inr r', tr', w')"
        by (simp add: Let_def)
      then have "r' = r\<lparr>failed := failed r + 1, errors := errors r @ [error_entry i e]\<rparr>"
        and "tr' = tr @ [Executed i (trim s) (Failure e)]" and "w' = w1"
        by (simp_all only: prod.inject sum.inject)
      with False ex' True show ?thesis by (rule that(3))
    next
      case nstop: False
      from assms False ex' nstop
      have "migration_loop exec dly stop n (i + 1) rest
         (r\<lparr>failed := failed r + 1, errors := errors r @ [error_entry i e]\<rparr>)
         (tr @ [Executed i (trim s) (Failure e)] @ pause dly n i) w1 = (Inr r', tr', w')"
        by (simp add: Let_def)
      with False ex' nstop show ?thesis by (rule that(4))
    qed
  next
    case (Rejected msg)
    with False ex assms show ?thesis by (simp add: Let_def)
  qed
qed


lemma migration_loop_total:
  "migration_loop exec dly stop n i rest r tr w = (Inr r', tr', w') \<Longrightarrow> total r' = total r"
proof (induction rest arbitrary: i r tr w)
  case Nil
  then show ?case by simp
next
  case (Cons s rest)
  from Cons.prems show ?case
  proof (cases rule: migration_loop_Cons_cases)
    case skip
    then show ?thesis using Cons.IH by blast
  next
    case (ok d w1)
    from Cons.IH [OF ok(3)] show ?thesis by simp
  next
    case (halt e w1)
    then show ?thesis by simp
  next
    case (cont e w1)
    from Cons.IH [OF cont(4)] show ?thesis by simp
  qed
qed

lemma migration_loop_processed_le:
  "migration_loop exec dly stop n i rest r tr w = (Inr r', tr', w') \<Longrightarrow>
   successful r' + failed r' \<le> successful r + failed r + length rest"
proof (induction rest arbitrary: i r tr w)
  case Nil
  then show ?case by simp
next
  case (Cons s rest)
  from Cons.prems show ?case
  proof (cases rule: migration_loop_Cons_cases)
    case skip
    from Cons.IH [OF skip(2)] show ?thesis by simp
  next
    case (ok d w1)
    from Cons.IH [OF ok(3)] show ?thesis by simp
  next
    case (halt e w1)
    then show ?thesis by simp
  next
    case (cont e w1)
    from Cons.IH [OF cont(4)] show ?thesis by simp
  qed
qed

lemma migration_loop_processed_eq:
  "migration_loop exec dly False n i rest r tr w = (Inr r', tr', w') \<Longrightarrow>
   \<forall>s \<in> set rest. \<not> skipped (trim s) \<Longrightarrow>
   successful r' + failed r' = successful r + failed r + length rest"
proof (induction rest arbitrary: i r tr w)
  case Nil
  then show ?case by simp
next
  case (Cons s rest)
  from Cons.prems(2) have rest: "\<forall>s \<in> set rest. \<not> skipped (trim s)" by simp
  from Cons.prems(1) show ?case
  proof (cases rule: migration_loop_Cons_cases)
    case skip
    with Cons.prems(2) show ?thesis by simp
  next
    case (ok d w1)
    from Cons.IH [OF ok(3) rest] show ?thesis by simp
  next
    case (halt e w1)
    then show ?thesis by simp
  next
    case (cont e w1)
    from Cons.IH [OF cont(4) rest] show ?thesis by simp
  qed
qed


lemma migration_loop_always_ok:
  assumes "\<And>s w. \<exists>d. fst (exec s w) = Success d"
  shows "fst (migration_loop exec dly stop n i rest r tr w) =
         Inr (r\<lparr>successful := successful r + length (filter (\<lambda>s. \<not> skipped (trim s)) rest)\<rparr>)"
proof (induction rest arbitrary: i r tr w)
  case Nil
  show ?case by simp
next
  case (Cons s rest)
  show ?case
  proof (cases "skipped (trim s)")
    case True
    with Cons.IH show ?thesis by (simp add: Let_def)
  next
    case False
    from assms obtain d where "fst (exec (trim s) w) = Success d" by blast
    then obtain w1 where "exec (trim s) w = (Success d, w1)" by (cases "exec (trim s) w") simp
    with False Cons.IH show ?thesis by (simp add: Let_def)
  qed
qed

lemma show_nat_2 [simp]: "show_nat (Suc (Suc 0)) = ''2''"
  by (simp add: show_nat.simps)



lemma runMigration_bounded:
  assumes "runMigration exec stmts opts w = (Inr r, tr, w')"
  shows "total r = length stmts" and "successful r + failed r \<le> total r"
proof -
  from migration_loop_total [OF assms [unfolded runMigration_def]]
  show t: "total r = length stmts" by simp
  from migration_loop_processed_le [OF assms [unfolded runMigration_def]] t
  show "successful r + failed r \<le> total r" by simp
qed

section \<open>Results of the splitter\<close>

text \<open>
  C7 (as amended). A semicolon at the end of a line inside a dollar-quoted body does not
  end a statement, and the whole block lies in one returned statement, provided the
  scanner is outside a body when it reads the line that opens the block: its flag,
  flipped by every line it keeps that holds an odd number of \<open>$$\<close> markers, is off
  after the lines \<open>pre\<close>, as it is when each of them holds an even number. The lines of
  the script are \<open>pre\<close>, \<open>opening\<close>, \<open>body\<close>, \<open>closing\<close>, \<open>post\<close>; \<open>opening\<close> is a line that
  is not a comment and holds an odd number of \<open>$$\<close> markers; the lines of \<open>body\<close> hold an
  even number of them (none, usually) and are otherwise arbitrary: blank, starting with
  \<open>--\<close>, ending with a semicolon; \<open>closing\<close> holds an odd number. Then the statement that
  follows those of \<open>pre\<close> in the result consists of what was being buffered, the block
  from \<open>opening\<close> to \<open>closing\<close> with every line of it verbatim, and what the later
  lines add to the statement: nothing when \<open>closing\<close> ends with a semicolon. Only the
  two ends of the statement are trimmed.
\<close>

theorem dollar_quoted_block_is_one_statement:
  assumes "split_nl sql = pre @ opening # body @ closing # post"
    and "\<not> inDollarQuote (scan_lines pre)"
    and "\<not> skipped (trim opening)" and "odd (match_count (trim opening))"
    and "\<forall>b \<in> set body. even (match_count (trim b))"
    and "odd (match_count (trim closing))"
  shows "\<exists>more rest.
           parseSQLStatements sql =
             statements (scan_lines pre) @
             [trim (current (scan_lines pre) @ join_nl (opening # body @ [closing]) @ more)] @
             rest \<and>
           (endsWith (trim closing) '';'' \<longrightarrow> more = [])"
proof -
  let ?st = "scan_lines pre"
  let ?block = "opening # body @ [closing]"
  let ?st1 = "?st\<lparr>inDollarQuote := True, current := current ?st @ opening @ [CHR 0x0A]\<rparr>"
  let ?st2 = "?st1\<lparr>current := current ?st1 @ buffered body\<rparr>"
  let ?st3 = "?st2\<lparr>inDollarQuote := False, current := current ?st2 @ closing @ [CHR 0x0A]\<rparr>"
  let ?text = "current ?st @ join_nl ?block"
  from assms(2,3,4) have 1: "scan_line ?st opening = ?st1"
    by (simp add: scan_line_keep Let_def)
  from assms(5) have 2: "foldl scan_line ?st1 body = ?st2"
    by (intro scan_body_lines) simp_all
  have bj: "buffered ?block = join_nl ?block @ [CHR 0x0A]"
    by (rule buffered_join_nl) simp
  have "current ?st3 = current ?st @ buffered ?block" by simp
  also have "\<dots> = ?text @ [CHR 0x0A]"
    unfolding bj by (simp only: append_assoc)
  finally have cur: "current ?st3 = ?text @ [CHR 0x0A]" .
  from assms(1) have parse:
    "parseSQLStatements sql = finish (scan_lines (pre @ opening # body @ closing # post))"
    by (simp add: parseSQLStatements_def scan_lines_def)
  have upto: "scan_lines (pre @ opening # body @ closing # post) =
              foldl scan_line (scan_line ?st2 closing) post"
    using 1 2 by (simp add: scan_lines_append)
  have "\<not> skipped (trim (current ?st @ opening @ CHR 0x0A # buffered (body @ [closing])))"
    using buffer_ok_scan_lines assms(3) by (intro kept_buffer_not_skipped) simp_all
  then have ns: "\<not> skipped (trim (current ?st3))" by simp
  show ?thesis
  proof (cases "endsWith (trim closing) '';''")
    case True
    with assms(6) have "scan_line ?st2 closing = complete ?st3"
      by (simp add: scan_line_keep Let_def)
    with complete_emits [OF ns]
    have 3: "scan_line ?st2 closing =
             ?st3\<lparr>statements := statements ?st @ [trim (current ?st3)], current := []\<rparr>"
      by simp
    from cur have stmt: "trim (current ?st3) = trim ?text"
      by (simp only: trim_line_feed)
    obtain zs where "statements (foldl scan_line (scan_line ?st2 closing) post) =
                     statements (scan_line ?st2 closing) @ zs"
      using statements_foldl by blast
    moreover obtain zs' where
      "finish (foldl scan_line (scan_line ?st2 closing) post) =
       statements (foldl scan_line (scan_line ?st2 closing) post) @ zs'"
      using finish_extends by blast
    ultimately have "parseSQLStatements sql =
             statements ?st @
             [trim (current ?st @ join_nl ?block @ [])] @ (zs @ zs')"
      using parse upto 3 stmt by simp
    then show ?thesis by blast
  next
    case False
    with assms(6) have 3: "scan_line ?st2 closing = ?st3"
      by (simp add: scan_line_keep Let_def)
    have ok: "buffer_ok ?st3"
      using ns by (simp add: buffer_ok_def is_space_def)
    have "current ?st3 \<noteq> []" by simp
    from buffer_continues [OF ok this, of post] obtain more rest where
      "finish (foldl scan_line ?st3 post) =
       statements ?st3 @ [trim (current ?st3 @ more)] @ rest"
      by blast
    moreover have "statements ?st3 = statements ?st" by simp
    moreover have "(?text @ [CHR 0x0A]) @ more =
                   current ?st @ join_nl ?block @ (CHR 0x0A # more)"
      by (simp only: append_assoc append_Cons append_Nil)
    ultimately have "finish (foldl scan_line ?st3 post) =
       statements ?st @
       [trim (current ?st @ join_nl ?block @ (CHR 0x0A # more))] @ rest"
      by (simp only: cur)
    with parse upto 3 have
      "parseSQLStatements sql =
       statements ?st @
       [trim (current ?st @ join_nl ?block @ (CHR 0x0A # more))] @ rest"
      by simp
    with False show ?thesis by blast
  qed
qed

theorem dollar_quoted_block_is_one_statement_witness:
  "\<exists>rest. parseSQLStatements function_script =
            [''CREATE TABLE a (id INT);''] @ [function_text] @ rest"
proof -
  have script: "split_nl function_script =
                  function_head @ ''AS $$'' # function_body @ ''$$;'' # [''SELECT 1'', '''']"
    by code_simp
  have even_before: "\<forall>x \<in> set function_head. even (match_count (trim x))" by code_simp
  have "\<not> inDollarQuote scan_init" by (simp add: scan_init_def)
  then have outside: "\<not> inDollarQuote (scan_lines function_head)"
    unfolding scan_lines_def using even_before by (rule even_lines_stay_outside)
  have op_line: "\<not> skipped (trim ''AS $$'')" "odd (match_count (trim ''AS $$''))"
    by code_simp+
  have bd_lines: "\<forall>b \<in> set function_body. even (match_count (trim b))" by code_simp
  have cl_line: "odd (match_count (trim ''$$;''))" by code_simp
  have cl_end: "endsWith (trim ''$$;'') '';''" by code_simp
  have before: "statements (scan_lines function_head) = [''CREATE TABLE a (id INT);'']"
    "trim (current (scan_lines function_head) @
           join_nl (''AS $$'' # function_body @ [''$$;'']) @ []) = function_text"
    by code_simp+
  from dollar_quoted_block_is_one_statement [OF script outside op_line bd_lines cl_line]
  obtain more rest where
    parsed: "parseSQLStatements function_script =
             statements (scan_lines function_head) @
             [trim (current (scan_lines function_head) @
                    join_nl (''AS $$'' # function_body @ [''$$;'']) @ more)] @ rest"
    and "endsWith (trim ''$$;'') '';'' \<longrightarrow> more = []"
    by blast
  with cl_end have "more = []" by blast
  with parsed show ?thesis
    by (simp only: before) blast
qed

text \<open>
  With a single \<open>$$\<close> on an earlier line the flag is on when the function's opening line
  is read, that line turns it off, and the body is cut at its first semicolon.
\<close>

theorem stray_marker_splits_function_body:
  "parseSQLStatements stray_marker_script =
     [join_nl [''INSERT INTO notes VALUES ('costs $$');'',
               ''CREATE FUNCTION one() RETURNS INT AS $$'',
               ''BEGIN'',
               ''  RETURN 1;''],
      ''END;'',
      ''$$;'']"
  by code_simp

text \<open>
  C8. For every input that is empty or consists solely of lines that are blank or, after
  trimming leading white space, begin with \<open>--\<close>, \<open>parseSQLStatements\<close> returns the empty
  sequence.
\<close>

theorem comments_and_blank_lines_give_no_statement:
  assumes "\<forall>l \<in> set (split_nl sql). blank l \<or> comment_line l"
  shows "parseSQLStatements sql = []"
proof -
  from assms have "\<forall>l \<in> set (split_nl sql). skipped (trim l)"
    by (auto intro: blank_skipped comment_line_skipped)
  then have "foldl scan_line scan_init (split_nl sql) = scan_init"
    by (intro scan_skipped_lines) (simp_all add: scan_init_def)
  then show ?thesis
    by (simp add: parseSQLStatements_def finish_def scan_init_def)
qed

theorem comments_and_blank_lines_give_no_statement_witness:
  "parseSQLStatements comments_only = [] \<and> parseSQLStatements [] = []"
proof -
  have "\<forall>l \<in> set (split_nl comments_only). blank l \<or> comment_line l" by code_simp
  then have "parseSQLStatements comments_only = []"
    by (rule comments_and_blank_lines_give_no_statement)
  moreover have "\<forall>l \<in> set (split_nl []). blank l \<or> comment_line l" by code_simp
  then have "parseSQLStatements [] = []"
    by (rule comments_and_blank_lines_give_no_statement)
  ultimately show ?thesis by blast
qed

text \<open>
  C9. For every script whose final statement lacks a trailing semicolon, the splitter
  still emits the remaining buffer as the last statement. Of the lines of the script,
  \<open>l\<close> is the last one that the loop keeps (it is read inside a dollar-quoted body, or it
  is neither blank nor a comment) and it does not complete a statement (the scanner is
  inside a body after it, or its trimmed text does not end with \<open>;\<close>); \<open>pre\<close> are the
  lines before it and \<open>post\<close> the lines after it, which are blank, or comments that the
  loop skips because the scanner is outside a body after \<open>l\<close>. The last statement
  returned is the trimmed buffer, that is, what was buffered of the final statement
  before \<open>l\<close>, followed by \<open>l\<close>; it is not empty.
\<close>

theorem final_statement_without_semicolon:
  assumes "split_nl sql = pre @ l # post"
    and "inDollarQuote (scan_lines pre) \<or> \<not> skipped (trim l)"
    and "(inDollarQuote (scan_lines pre) \<noteq> odd (match_count (trim l))) \<or>
         \<not> endsWith (trim l) '';''"
    and "\<forall>p \<in> set post.
           blank p \<or>
           (comment_line p \<and> inDollarQuote (scan_lines pre) = odd (match_count (trim l)))"
  shows "parseSQLStatements sql =
           statements (scan_lines pre) @ [trim (current (scan_lines pre) @ l)] \<and>
         trim (current (scan_lines pre) @ l) \<noteq> []"
proof -
  let ?st = "scan_lines pre"
  let ?st1 = "?st\<lparr>inDollarQuote := (inDollarQuote ?st \<noteq> odd (match_count (trim l))),
                   current := current ?st @ l @ [CHR 0x0A]\<rparr>"
  from assms(2,3) have "scan_line ?st l = ?st1" by (rule scan_last_kept)
  then have "scan_lines (pre @ l # post) = foldl scan_line ?st1 post"
    by (simp add: scan_lines_append)
  moreover from assms(4)
  have "\<forall>p \<in> set post. blank p \<or> (comment_line p \<and> \<not> inDollarQuote ?st1)"
    by auto
  from scan_trailing_lines [OF this] obtain ws where
    "foldl scan_line ?st1 post = ?st1\<lparr>current := current ?st1 @ ws\<rparr>"
    and ws: "\<forall>c \<in> set ws. is_space c"
    by blast
  ultimately have fin: "scan_lines (pre @ l # post) = ?st1\<lparr>current := current ?st1 @ ws\<rparr>"
    by simp
  from ws have "\<forall>c \<in> set (CHR 0x0A # ws). is_space c" by (simp add: is_space_def)
  then have "trim ((current ?st @ l) @ CHR 0x0A # ws) = trim (current ?st @ l)"
    by (rule trim_append_spaces)
  then have tr: "trim (current (scan_lines (pre @ l # post))) = trim (current ?st @ l)"
    using fin by simp
  from kept_buffer_not_skipped [OF buffer_ok_scan_lines assms(2), of ws]
  have "\<not> skipped (trim (current (scan_lines (pre @ l # post))))"
    using fin by simp
  with tr have ne: "trim (current ?st @ l) \<noteq> []" by (simp add: skipped_def)
  from assms(1) have "parseSQLStatements sql = finish (scan_lines (pre @ l # post))"
    by (simp add: parseSQLStatements_def scan_lines_def)
  with tr ne fin show ?thesis by (simp add: finish_def)
qed

theorem final_statement_without_semicolon_witness:
  "parseSQLStatements function_script =
     [''CREATE TABLE a (id INT);'', function_text, ''SELECT 1''] \<and>
   parseSQLStatements trailing_comment_script = [''SELECT 1'']"
proof -
  let ?pre = "function_head @ ''AS $$'' # function_body @ [''$$;'']"
  have script: "split_nl function_script = ?pre @ ''SELECT 1'' # ['''']"
    by code_simp
  have kept: "inDollarQuote (scan_lines ?pre) \<or> \<not> skipped (trim ''SELECT 1'')"
    by code_simp
  have open_end: "(inDollarQuote (scan_lines ?pre) \<noteq> odd (match_count (trim ''SELECT 1''))) \<or>
                  \<not> endsWith (trim ''SELECT 1'') '';''"
    by code_simp
  have post: "\<forall>p \<in> set [''''].
                blank p \<or>
                (comment_line p \<and>
                 inDollarQuote (scan_lines ?pre) = odd (match_count (trim ''SELECT 1'')))"
    by code_simp
  have before: "statements (scan_lines ?pre) = [''CREATE TABLE a (id INT);'', function_text]"
    "trim (current (scan_lines ?pre) @ ''SELECT 1'') = ''SELECT 1''"
    by code_simp+
  from final_statement_without_semicolon [OF script kept open_end post] before
  have first: "parseSQLStatements function_script =
     [''CREATE TABLE a (id INT);'', function_text, ''SELECT 1'']"
    by simp
  have script': "split_nl trailing_comment_script = [] @ ''SELECT 1'' # [''-- done'']"
    by code_simp
  have kept': "inDollarQuote (scan_lines []) \<or> \<not> skipped (trim ''SELECT 1'')"
    by code_simp
  have open_end': "(inDollarQuote (scan_lines []) \<noteq> odd (match_count (trim ''SELECT 1''))) \<or>
                   \<not> endsWith (trim ''SELECT 1'') '';''"
    by code_simp
  have post': "\<forall>p \<in> set [''-- done''].
                 blank p \<or>
                 (comment_line p \<and>
                  inDollarQuote (scan_lines []) = odd (match_count (trim ''SELECT 1'')))"
    by code_simp
  have before': "statements (scan_lines []) = []"
    "trim (current (scan_lines []) @ ''SELECT 1'') = ''SELECT 1''"
    by code_simp+
  from final_statement_without_semicolon [OF script' kept' open_end' post'] before'
  have "parseSQLStatements trailing_comment_script = [''SELECT 1'']"
    by simp
  with first show ?thesis by blast
qed

text \<open>
  C10. Every statement in the sequence returned by \<open>parseSQLStatements\<close>, for every input
  string, is non-empty and equals its own trim: it has no leading or trailing white
  space.
\<close>

theorem statements_are_trimmed_and_nonempty:
  "\<forall>s \<in> set (parseSQLStatements sql).
     s \<noteq> [] \<and> trim s = s \<and> \<not> is_space (hd s) \<and> \<not> is_space (last s)"
proof -
  have "clean_statements (statements (foldl scan_line scan_init (split_nl sql)))"
    by (rule scan_lines_clean) (simp add: scan_init_def clean_statements_def)
  then have "clean_statements (parseSQLStatements sql)"
    by (simp add: parseSQLStatements_def finish_def clean_statements_def)
  then have "\<forall>s \<in> set (parseSQLStatements sql). s \<noteq> [] \<and> trim s = s"
    by (simp add: clean_statements_def list_all_iff)
  then show ?thesis
    by (metis trim_ends)
qed

theorem statements_are_trimmed_and_nonempty_witness:
  "parseSQLStatements function_script =
     [''CREATE TABLE a (id INT);'', function_text, ''SELECT 1''] \<and>
   function_text \<noteq> [] \<and> trim function_text = function_text \<and>
   \<not> is_space (hd function_text) \<and> \<not> is_space (last function_text)"
proof -
  have parsed: "parseSQLStatements function_script =
     [''CREATE TABLE a (id INT);'', function_text, ''SELECT 1'']"
    by code_simp
  with statements_are_trimmed_and_nonempty [of function_script]
  show ?thesis by simp
qed

section \<open>Results of the executor\<close>

text \<open>
  C1 (as amended). In every result returned by \<open>runMigration\<close> or \<open>runMigrationFile\<close> the
  successful and failed counts together never exceed the total, and the total is the
  number of input statements of \<open>runMigration\<close>. The total equals successful plus failed
  when stop-on-first-error is off and no input statement is blank or starts with \<open>--\<close>
  after trimming; the statements that \<open>runMigrationFile\<close> takes from the splitter are
  never of that kind, so there the equality holds whenever stop-on-first-error is off.
\<close>

theorem processed_count_bounded_by_total:
  "(runMigration exec stmts opts w = (Inr r, tr, w') \<longrightarrow>
      total r = length stmts \<and> successful r + failed r \<le> total r \<and>
      (\<not> stop_of opts \<longrightarrow> (\<forall>s \<in> set stmts. \<not> skipped (trim s)) \<longrightarrow>
         total r = successful r + failed r)) \<and>
   (runMigrationFile fs exec path opts w = (Inr r, tr, w') \<longrightarrow>
      successful r + failed r \<le> total r \<and>
      (\<not> stop_of opts \<longrightarrow> total r = successful r + failed r))"
proof -
  have exact: "total r = successful r + failed r"
    if run: "runMigration exec ss opts w = (Inr r, tr, w')"
      and "\<not> stop_of opts" and allok: "\<forall>s \<in> set ss. \<not> skipped (trim s)" for ss
  proof -
    from that have "migration_loop exec (delay_of opts) False (length ss) 0 ss
        \<lparr>total = length ss, successful = 0, failed = 0, errors = []\<rparr> [] w = (Inr r, tr, w')"
      by (simp add: runMigration_def)
    from migration_loop_processed_eq [OF this allok] runMigration_bounded(1) [OF run]
    show ?thesis by simp
  qed
  have from_file: "successful r + failed r \<le> total r \<and>
      (\<not> stop_of opts \<longrightarrow> total r = successful r + failed r)"
    if frun: "runMigrationFile fs exec path opts w = (Inr r, tr, w')"
  proof (cases "fs path")
    case Missing
    with frun show ?thesis by (auto simp: runMigrationFile_def)
  next
    case (Unreadable msg)
    with frun show ?thesis by (simp add: runMigrationFile_def)
  next
    case (Readable sql)
    with frun have run: "runMigration exec (parseSQLStatements sql) opts w = (Inr r, tr, w')"
      by (simp add: runMigrationFile_def)
    have "\<forall>s \<in> set (parseSQLStatements sql). \<not> skipped (trim s)"
      by (simp add: parsed_statements_executable)
    with exact [OF run] runMigration_bounded(2) [OF run] show ?thesis by blast
  qed
  from exact [of stmts] from_file runMigration_bounded [of exec stmts opts w r tr w']
  show ?thesis by blast
qed

theorem processed_count_bounded_by_total_witness:
  "runMigration always_ok four_tables no_options () = (Inr all_ok_result, all_ok_trace, ()) \<and>
   runMigrationFile four_tables_disk always_ok ''001.sql'' no_options () =
     (Inr all_ok_result, all_ok_trace, ()) \<and>
   total all_ok_result = successful all_ok_result + failed all_ok_result \<and>
   successful all_ok_result + failed all_ok_result \<le> total all_ok_result"
proof -
  have run: "runMigration always_ok four_tables no_options () =
             (Inr all_ok_result, all_ok_trace, ())"
    by code_simp
  have frun: "runMigrationFile four_tables_disk always_ok ''001.sql'' no_options () =
             (Inr all_ok_result, all_ok_trace, ())"
    by code_simp
  have nostop: "\<not> stop_of no_options" by code_simp
  have allok: "\<forall>s \<in> set four_tables. \<not> skipped (trim s)" by code_simp
  from processed_count_bounded_by_total
    [of always_ok four_tables no_options "()" all_ok_result all_ok_trace "()"
        four_tables_disk "''001.sql''"]
    run frun nostop allok
  show ?thesis by simp
qed

theorem total_exceeds_processed_when_halted:
  "fst (runMigration (failing_on ''CREATE TABLE b (id INT);'') four_tables stop_options []) =
     Inr halted_result \<and>
   total halted_result \<noteq> successful halted_result + failed halted_result"
  by code_simp

text \<open>
  C2 (as amended). When nothing exists at the path, \<open>runMigrationFile\<close> attempts no
  statement and returns, rather than throws, the result with total 0, successful 0,
  failed 0 and the single error \<open>File not found\<close>. When the file exists but cannot be
  read, no statement is attempted and the read error propagates to the caller.
\<close>

theorem missing_file_attempts_nothing:
  "(fs path = Missing \<longrightarrow>
      runMigrationFile fs exec path opts w =
        (Inr \<lparr>total = 0, successful = 0, failed = 0, errors = [''File not found'']\<rparr>, [], w)) \<and>
   (fs path = Unreadable msg \<longrightarrow>
      runMigrationFile fs exec path opts w = (Inl msg, [], w))"
  by (simp add: runMigrationFile_def)

theorem missing_file_attempts_nothing_witness:
  "runMigrationFile empty_disk (failing_on ''x'') ''001.sql'' no_options [] =
     (Inr \<lparr>total = 0, successful = 0, failed = 0, errors = [''File not found'']\<rparr>, [], []) \<and>
   runMigrationFile locked_disk (failing_on ''x'') ''001.sql'' no_options [] =
     (Inl ''EACCES: permission denied'', [], [])"
proof -
  have missing: "empty_disk ''001.sql'' = Missing"
    by (simp add: empty_disk_def)
  have locked: "locked_disk ''001.sql'' = Unreadable ''EACCES: permission denied''"
    by (simp add: locked_disk_def)
  from missing_file_attempts_nothing
    [where fs = empty_disk and path = "''001.sql''" and exec = "failing_on ''x''"
       and opts = no_options and w = "[]"] missing
  have "runMigrationFile empty_disk (failing_on ''x'') ''001.sql'' no_options [] =
     (Inr \<lparr>total = 0, successful = 0, failed = 0, errors = [''File not found'']\<rparr>, [], [])"
    by blast
  moreover from missing_file_attempts_nothing
    [where fs = locked_disk and path = "''001.sql''" and msg = "''EACCES: permission denied''"
       and exec = "failing_on ''x''" and opts = no_options and w = "[]"] locked
  have "runMigrationFile locked_disk (failing_on ''x'') ''001.sql'' no_options [] =
     (Inl ''EACCES: permission denied'', [], [])"
    by blast
  ultimately show ?thesis by blast
qed

theorem missing_file_is_absorbed_into_result:
  "runMigrationFile empty_disk always_ok ''001.sql'' no_options () =
     (Inr missing_file_result, [], ())"
  by code_simp




text \<open>
  C4 (as amended). For a 4-statement input whose statements 1 and 2 are neither blank nor
  start with \<open>--\<close> after trimming, where the executor succeeds on statement 1 and fails
  on statement 2 and stop-on-first-error is true, \<open>runMigration\<close> returns successful 1 and
  failed 1, the executor is called on statements 1 and 2 only (the outside world is left
  as the second call left it), and successful plus failed is less than total.
\<close>

theorem stop_on_error_halts_after_statement_2:
  assumes "\<not> skipped (trim s1)" and "\<not> skipped (trim s2)"
    and "exec (trim s1) w = (Success d, w1)" and "exec (trim s2) w1 = (Failure e, w2)"
    and "stop_of opts"
  shows "\<exists>r. runMigration exec [s1, s2, s3, s4] opts w =
           (Inr r,
            [Executed 0 (trim s1) (Success d), Delayed (delay_of opts),
             Executed 1 (trim s2) (Failure e)],
            w2) \<and>
         successful r = 1 \<and> failed r = 1 \<and> total r = 4 \<and>
         successful r + failed r < total r \<and> errors r = [''Statement 2: '' @ e]"
  using assms by (simp add: runMigration_def error_entry_def pause.simps)

theorem stop_on_error_halts_after_statement_2_witness:
  "runMigration (failing_on ''CREATE TABLE b (id INT);'') four_tables stop_options [] =
     (Inr halted_result, halted_trace,
      [''CREATE TABLE a (id INT);'', ''CREATE TABLE b (id INT);''])"
proof -
  have s1: "\<not> skipped (trim ''CREATE TABLE a (id INT);'')" by code_simp
  have s2: "\<not> skipped (trim ''CREATE TABLE b (id INT);'')" by code_simp
  have e1: "failing_on ''CREATE TABLE b (id INT);'' (trim ''CREATE TABLE a (id INT);'') [] =
            (Success ''[]'', [''CREATE TABLE a (id INT);''])"
    by code_simp
  have e2: "failing_on ''CREATE TABLE b (id INT);'' (trim ''CREATE TABLE b (id INT);'')
              [''CREATE TABLE a (id INT);''] =
            (Failure ''syntax error'', [''CREATE TABLE a (id INT);'', ''CREATE TABLE b (id INT);''])"
    by code_simp
  have st: "stop_of stop_options" by code_simp
  have tr: "trim ''CREATE TABLE a (id INT);'' = ''CREATE TABLE a (id INT);''"
    "trim ''CREATE TABLE b (id INT);'' = ''CREATE TABLE b (id INT);''"
    "delay_of stop_options = 300"
    by code_simp+
  from stop_on_error_halts_after_statement_2 [OF s1 s2 e1 e2 st,
      of "''CREATE TABLE c (id INT);''" "''CREATE TABLE d (id INT);''"]
  obtain r where
    "runMigration (failing_on ''CREATE TABLE b (id INT);'') four_tables stop_options [] =
       (Inr r, halted_trace, [''CREATE TABLE a (id INT);'', ''CREATE TABLE b (id INT);''])"
    and "successful r = 1" "failed r = 1" "total r = 4"
      "errors r = [''Statement 2: '' @ ''syntax error'']"
    unfolding tr four_tables_def halted_trace_def by auto
  moreover from this have "r = halted_result"
    by (simp add: halted_result_def)
  ultimately show ?thesis by simp
qed

theorem stop_on_error_with_skipped_statement_1:
  "runMigration (failing_on ''CREATE TABLE b (id INT);'') commented_batch stop_options [] =
     (Inr skipped_first_halted_result,
      [Executed 1 ''CREATE TABLE b (id INT);'' (Failure ''syntax error'')],
      [''CREATE TABLE b (id INT);'']) \<and>
   successful skipped_first_halted_result \<noteq> 1"
  by code_simp

text \<open>
  C5 (as amended). Given an executor that always succeeds, for every input list of
  \<open>N \<ge> 0\<close> statements \<open>runMigration\<close> returns failed 0, an empty error list, and
  successful equal to the number of statements that are neither blank nor start with
  \<open>--\<close> after trimming; that number is \<open>N\<close> when no statement is of that kind.
\<close>

theorem always_ok_counts_executed_statements:
  assumes "\<And>s w. \<exists>d. fst (exec s w) = Success d"
  shows "fst (runMigration exec stmts opts w) =
           Inr \<lparr>total = length stmts,
                successful = length (filter (\<lambda>s. \<not> skipped (trim s)) stmts),
                failed = 0, errors = []\<rparr> \<and>
         ((\<forall>s \<in> set stmts. \<not> skipped (trim s)) \<longrightarrow>
          fst (runMigration exec stmts opts w) =
            Inr \<lparr>total = length stmts, successful = length stmts, failed = 0, errors = []\<rparr>)"
proof -
  have run: "fst (runMigration exec stmts opts w) =
           Inr \<lparr>total = length stmts,
                successful = length (filter (\<lambda>s. \<not> skipped (trim s)) stmts),
                failed = 0, errors = []\<rparr>"
    unfolding runMigration_def by (simp add: migration_loop_always_ok [OF assms])
  moreover have "filter (\<lambda>s. \<not> skipped (trim s)) stmts = stmts"
    if "\<forall>s \<in> set stmts. \<not> skipped (trim s)"
    using that by (simp add: filter_id_conv)
  ultimately show ?thesis by simp
qed

theorem always_ok_counts_executed_statements_witness:
  "fst (runMigration always_ok four_tables no_options ()) = Inr all_ok_result \<and>
   fst (runMigration always_ok [] no_options ()) =
     Inr \<lparr>total = 0, successful = 0, failed = 0, errors = []\<rparr>"
proof -
  have ok: "\<exists>d. fst (always_ok s w) = Success d" for s w
    by (simp add: always_ok_def)
  have allok: "\<forall>s \<in> set four_tables. \<not> skipped (trim s)" by code_simp
  have len: "length four_tables = 4" by code_simp
  from always_ok_counts_executed_statements [of always_ok four_tables no_options "()", OF ok]
    allok len
  have "fst (runMigration always_ok four_tables no_options ()) = Inr all_ok_result"
    by (simp add: all_ok_result_def)
  moreover from always_ok_counts_executed_statements [of always_ok "[]" no_options "()", OF ok]
  have "fst (runMigration always_ok [] no_options ()) =
     Inr \<lparr>total = 0, successful = 0, failed = 0, errors = []\<rparr>"
    by simp
  ultimately show ?thesis by blast
qed

theorem always_ok_skips_comment_statement:
  "fst (runMigration always_ok commented_batch no_options ()) = Inr skipped_first_ok_result \<and>
   successful skipped_first_ok_result \<noteq> length commented_batch"
  by code_simp

text \<open>
  C6 (as amended). For a 4-statement input none of whose statements is blank or starts
  with \<open>--\<close> after trimming, where the executor fails on statement 2 and succeeds on
  statements 1, 3 and 4 and stop-on-first-error is false, \<open>runMigration\<close> returns total 4,
  successful 3, failed 1 and the one-entry error list \<open>Statement 2: detail\<close>.
\<close>

theorem continue_after_failure_of_statement_2:
  assumes "\<not> skipped (trim s1)" and "\<not> skipped (trim s2)"
    and "\<not> skipped (trim s3)" and "\<not> skipped (trim s4)"
    and "exec (trim s1) w = (Success d1, w1)" and "exec (trim s2) w1 = (Failure e, w2)"
    and "exec (trim s3) w2 = (Success d3, w3)" and "exec (trim s4) w3 = (Success d4, w4)"
    and "\<not> stop_of opts"
  shows "runMigration exec [s1, s2, s3, s4] opts w =
           (Inr \<lparr>total = 4, successful = 3, failed = 1, errors = [''Statement 2: '' @ e]\<rparr>,
            [Executed 0 (trim s1) (Success d1), Delayed (delay_of opts),
             Executed 1 (trim s2) (Failure e), Delayed (delay_of opts),
             Executed 2 (trim s3) (Success d3), Delayed (delay_of opts),
             Executed 3 (trim s4) (Success d4)],
            w4)"
  using assms by (simp add: runMigration_def error_entry_def pause.simps)

theorem continue_after_failure_of_statement_2_witness:
  "runMigration (failing_on ''CREATE TABLE b (id INT);'') four_tables no_options [] =
     (Inr one_failure_result, one_failure_trace,
      [''CREATE TABLE a (id INT);'', ''CREATE TABLE b (id INT);'',
       ''CREATE TABLE c (id INT);'', ''CREATE TABLE d (id INT);''])"
proof -
  have s1: "\<not> skipped (trim ''CREATE TABLE a (id INT);'')" by code_simp
  have s2: "\<not> skipped (trim ''CREATE TABLE b (id INT);'')" by code_simp
  have s3: "\<not> skipped (trim ''CREATE TABLE c (id INT);'')" by code_simp
  have s4: "\<not> skipped (trim ''CREATE TABLE d (id INT);'')" by code_simp
  have e1: "failing_on ''CREATE TABLE b (id INT);'' (trim ''CREATE TABLE a (id INT);'') [] =
            (Success ''[]'', [''CREATE TABLE a (id INT);''])"
    by code_simp
  have e2: "failing_on ''CREATE TABLE b (id INT);'' (trim ''CREATE TABLE b (id INT);'')
              [''CREATE TABLE a (id INT);''] =
            (Failure ''syntax error'', [''CREATE TABLE a (id INT);'', ''CREATE TABLE b (id INT);''])"
    by code_simp
  have e3: "failing_on ''CREATE TABLE b (id INT);'' (trim ''CREATE TABLE c (id INT);'')
              [''CREATE TABLE a (id INT);'', ''CREATE TABLE b (id INT);''] =
            (Success ''[]'', [''CREATE TABLE a (id INT);'', ''CREATE TABLE b (id INT);'',
                              ''CREATE TABLE c (id INT);''])"
    by code_simp
  have e4: "failing_on ''CREATE TABLE b (id INT);'' (trim ''CREATE TABLE d (id INT);'')
              [''CREATE TABLE a (id INT);'', ''CREATE TABLE b (id INT);'',
               ''CREATE TABLE c (id INT);''] =
            (Success ''[]'', [''CREATE TABLE a (id INT);'', ''CREATE TABLE b (id INT);'',
                              ''CREATE TABLE c (id INT);'', ''CREATE TABLE d (id INT);''])"
    by code_simp
  have st: "\<not> stop_of no_options" by code_simp
  have tr: "trim ''CREATE TABLE a (id INT);'' = ''CREATE TABLE a (id INT);''"
    "trim ''CREATE TABLE b (id INT);'' = ''CREATE TABLE b (id INT);''"
    "trim ''CREATE TABLE c (id INT);'' = ''CREATE TABLE c (id INT);''"
    "trim ''CREATE TABLE d (id INT);'' = ''CREATE TABLE d (id INT);''"
    "delay_of no_options = 300"
    by code_simp+
  from continue_after_failure_of_statement_2 [OF s1 s2 s3 s4 e1 e2 e3 e4 st]
  show ?thesis
    unfolding tr four_tables_def one_failure_trace_def one_failure_result_def by simp
qed

theorem continue_with_skipped_statement_1:
  "runMigration (failing_on ''CREATE TABLE b (id INT);'') commented_batch no_options [] =
     (Inr skipped_first_result,
      [Executed 1 ''CREATE TABLE b (id INT);'' (Failure ''syntax error''), Delayed 300,
       Executed 2 ''CREATE TABLE c (id INT);'' (Success ''[]''), Delayed 300,
       Executed 3 ''CREATE TABLE d (id INT);'' (Success ''[]'')],
      [''CREATE TABLE b (id INT);'', ''CREATE TABLE c (id INT);'',
       ''CREATE TABLE d (id INT);'']) \<and>
   successful skipped_first_result \<noteq> 3"
  by code_simp

end
